theory Spec2Isabelle
  imports Main "HOL-Library.Char_ord" "HOL-Library.List_Lexorder"
begin

section \<open>Files, lines and text\<close>

text \<open>
  The log file is a list of bytes, opened in binary mode by \<^verbatim>\<open>extract_logs.py\<close>; the two
  index artifacts are text files. Bytes and the characters of decoded text are both
  \<^typ>\<open>char\<close>, and a file's content is a \<^typ>\<open>string\<close>: text is limited to the characters
  with a code point below 256. A position in the log file is a
  \<^typ>\<open>nat\<close> (what \<^verbatim>\<open>f.tell()\<close> returns); the offsets kept in the index are Python
  integers, hence \<^typ>\<open>int\<close>, since \<^verbatim>\<open>load_index\<close> accepts any integer literal.

  \<^verbatim>\<open>line.decode("utf-8", errors="ignore")\<close> is a library call: every function that decodes
  takes the decoder as its first argument \<open>dec\<close>, and no proof looks inside it. With
  \<^verbatim>\<open>errors="ignore"\<close> the call never raises, so the \<^verbatim>\<open>except Exception\<close> branches that
  follow it in the source are dead and have no counterpart here.
\<close>

definition LF :: char where
  "LF = CHR 0x0A"

definition CR :: char where
  "CR = CHR 0x0D"

text \<open>\<^verbatim>\<open>f.readline()\<close> on the bytes that remain: up to and including the first newline, or
  everything when there is none; empty only at the end of the file.\<close>

fun readline_from :: "string \<Rightarrow> string" where
  "readline_from [] = []"
| "readline_from (c # cs) = (if c = LF then [c] else c # readline_from cs)"

definition readline :: "string \<Rightarrow> nat \<Rightarrow> string" where
  "readline f pos = readline_from (drop pos f)"

lemma readline_from_Nil_iff: "readline_from s = [] \<longleftrightarrow> s = []"
  by (cases s) auto

lemma readline_Nil_iff: "readline f pos = [] \<longleftrightarrow> length f \<le> pos"
  by (simp add: readline_def readline_from_Nil_iff)

lemma readline_advances:
  "readline f pos \<noteq> [] \<Longrightarrow> length f - (pos + length (readline f pos)) < length f - pos"
  by (simp add: readline_Nil_iff) (metis length_greater_0_conv not_le readline_Nil_iff diff_less_mono2 less_add_same_cancel1)

text \<open>The decoder on data without a valid multi-byte sequence: the bytes below 128 decode to
  themselves and every other byte is dropped. It is the instance of \<open>dec\<close> at which concrete
  runs are evaluated.\<close>

definition decode_ascii :: "string \<Rightarrow> string" where
  "decode_ascii bs = filter (\<lambda>b. (of_char b :: nat) < 128) bs"

text \<open>\<^verbatim>\<open>str.startswith\<close>.\<close>

definition startswith :: "string \<Rightarrow> string \<Rightarrow> bool" where
  "startswith s p = (take (length p) s = p)"

text \<open>\<^verbatim>\<open>str.isspace\<close> on one character, for the code points below 256.\<close>

definition isspace :: "char \<Rightarrow> bool" where
  "isspace c =
     (let n = (of_char c :: nat)
      in (9 \<le> n \<and> n \<le> 13) \<or> (28 \<le> n \<and> n \<le> 32) \<or> n = 133 \<or> n = 160)"

text \<open>\<^verbatim>\<open>str.strip()\<close> and \<^verbatim>\<open>str.split()\<close> with no argument.\<close>

definition strip :: "string \<Rightarrow> string" where
  "strip s = rev (dropWhile isspace (rev (dropWhile isspace s)))"

fun split_acc :: "string \<Rightarrow> string \<Rightarrow> string list" where
  "split_acc cur [] = (if cur = [] then [] else [cur])"
| "split_acc cur (c # cs) =
     (if isspace c then (if cur = [] then split_acc [] cs else cur # split_acc [] cs)
      else split_acc (cur @ [c]) cs)"

definition split :: "string \<Rightarrow> string list" where
  "split s = split_acc [] s"

text \<open>\<^verbatim>\<open>str(n)\<close> for an integer, and \<^verbatim>\<open>int(s)\<close> for text without surrounding whitespace (both
  call sites strip or split first): an optional sign, then decimal digits, single underscores
  allowed between digits. \<open>None\<close> stands for \<^verbatim>\<open>ValueError\<close>. The interpreter's limit on the
  number of digits is not modelled.\<close>

definition digit_char :: "nat \<Rightarrow> char" where
  "digit_char n = char_of (48 + n)"

function str_nat :: "nat \<Rightarrow> string" where
  "str_nat n = (if n < 10 then [digit_char n] else str_nat (n div 10) @ [digit_char (n mod 10)])"
  by pat_completeness auto
termination
  by (relation "measure (\<lambda>n. n)") auto

declare str_nat.simps [simp del]

definition str_int :: "int \<Rightarrow> string" where
  "str_int i = (if i < 0 then CHR ''-'' # str_nat (nat (- i)) else str_nat (nat i))"

definition isdigit :: "char \<Rightarrow> bool" where
  "isdigit c = (48 \<le> (of_char c :: nat) \<and> (of_char c :: nat) \<le> 57)"

definition digit_val :: "char \<Rightarrow> nat" where
  "digit_val c = of_char c - 48"

fun parse_digits :: "nat \<Rightarrow> string \<Rightarrow> nat option" where
  "parse_digits acc [] = Some acc"
| "parse_digits acc [c] = (if isdigit c then Some (acc * 10 + digit_val c) else None)"
| "parse_digits acc (c # d # ds) =
     (if isdigit c then parse_digits (acc * 10 + digit_val c) (d # ds)
      else if c = CHR ''_'' \<and> isdigit d then parse_digits (acc * 10 + digit_val d) ds
      else None)"

definition parse_unsigned :: "string \<Rightarrow> nat option" where
  "parse_unsigned s =
     (case s of [] \<Rightarrow> None
      | c # cs \<Rightarrow> if isdigit c then parse_digits (digit_val c) cs else None)"

definition py_int :: "string \<Rightarrow> int option" where
  "py_int s =
     (case s of [] \<Rightarrow> None
      | c # cs \<Rightarrow>
          if c = CHR ''-'' then map_option (\<lambda>n. - int n) (parse_unsigned cs)
          else if c = CHR ''+'' then map_option int (parse_unsigned cs)
          else map_option int (parse_unsigned s))"

text \<open>Iterating over a file opened in text mode: \<^verbatim>\<open>\r\n\<close> and a lone \<^verbatim>\<open>\r\<close> are read as
  \<^verbatim>\<open>\n\<close>, and each line keeps its terminator.\<close>

fun universal_newlines :: "string \<Rightarrow> string" where
  "universal_newlines [] = []"
| "universal_newlines [c] = (if c = CR then [LF] else [c])"
| "universal_newlines (c # d # ds) =
     (if c = CR \<and> d = LF then LF # universal_newlines ds
      else if c = CR then LF # universal_newlines (d # ds)
      else c # universal_newlines (d # ds))"

fun lines_acc :: "string \<Rightarrow> string \<Rightarrow> string list" where
  "lines_acc cur [] = (if cur = [] then [] else [cur])"
| "lines_acc cur (c # cs) =
     (if c = LF then (cur @ [c]) # lines_acc [] cs else lines_acc (cur @ [c]) cs)"

definition text_lines :: "string \<Rightarrow> string list" where
  "text_lines s = lines_acc [] (universal_newlines s)"

section \<open>The index\<close>

text \<open>
  A Python \<^verbatim>\<open>dict\<close> keeps its keys in insertion order: it is an association list with
  distinct keys. \<open>dict_set\<close> is \<^verbatim>\<open>d[k] = v\<close> (an existing key keeps its place), \<open>map_of\<close> the
  lookup, \<open>keys\<close> is \<^verbatim>\<open>d.keys()\<close>.
\<close>

type_synonym index = "(string \<times> int) list"

fun dict_set :: "'k \<Rightarrow> 'v \<Rightarrow> ('k \<times> 'v) list \<Rightarrow> ('k \<times> 'v) list" where
  "dict_set k v [] = [(k, v)]"
| "dict_set k v ((k', v') # d) =
     (if k' = k then (k, v) # d else (k', v') # dict_set k v d)"

definition keys :: "('k \<times> 'v) list \<Rightarrow> 'k list" where
  "keys d = map fst d"

datatype error = ValueError | OSError

text \<open>The persisted state: the entry list (\<^verbatim>\<open>log_index.txt\<close>), the watermark
  (\<^verbatim>\<open>index_info.txt\<close>) and the output files by name. \<open>None\<close> is a file that does not exist.
  Text written to an artifact is read back as the same text, and a newline is written as one
  byte.\<close>

record store =
  index_file :: "string option"
  index_info_file :: "string option"
  outputs :: "string \<rightharpoonup> string"

subsection \<open>\<^verbatim>\<open>build_index\<close>\<close>

text \<open>The \<^verbatim>\<open>while True\<close> loop of \<^verbatim>\<open>build_index\<close>, from the position \<open>offset\<close> of the open
  file with the dictionary built so far.\<close>

function build_scan :: "(string \<Rightarrow> string) \<Rightarrow> string \<Rightarrow> nat \<Rightarrow> index \<Rightarrow> index" where
  "build_scan dec f offset index =
     (if readline f offset = [] then index
      else if length (dec (readline f offset)) < 10
        then build_scan dec f (offset + length (readline f offset)) index
      else if map_of index (take 10 (dec (readline f offset))) = None
        then build_scan dec f (offset + length (readline f offset))
               (dict_set (take 10 (dec (readline f offset))) (int offset) index)
      else build_scan dec f (offset + length (readline f offset)) index)"
  by pat_completeness auto
termination
  by (relation "measure (\<lambda>(dec, f, offset, index). length f - offset)")
     (auto intro: readline_advances)

declare build_scan.simps [simp del]

text \<open>One line \<^verbatim>\<open>"{date} {offset}\n"\<close> for each key of \<^verbatim>\<open>sorted(index.keys())\<close>. The
  \<open>None\<close> branch is never taken: the key comes from the dictionary.\<close>

definition entry_line :: "string \<Rightarrow> int \<Rightarrow> string" where
  "entry_line date offset = date @ '' '' @ str_int offset @ [LF]"

definition write_entries :: "index \<Rightarrow> string" where
  "write_entries index =
     concat (map (\<lambda>date. case map_of index date of None \<Rightarrow> [] | Some offset \<Rightarrow> entry_line date offset)
                 (sort (keys index)))"

definition build_index :: "(string \<Rightarrow> string) \<Rightarrow> string \<Rightarrow> store \<Rightarrow> store" where
  "build_index dec log_file st =
     st\<lparr>index_file := Some (write_entries (build_scan dec log_file 0 [])),
        index_info_file := Some (str_int (int (length log_file)))\<rparr>"

subsection \<open>\<^verbatim>\<open>load_index\<close>\<close>

text \<open>The \<^verbatim>\<open>for line in f\<close> loop; \<^verbatim>\<open>int(offset)\<close> raises \<^verbatim>\<open>ValueError\<close> on a second field
  that is not an integer literal, and nothing catches it.\<close>

fun load_lines :: "string list \<Rightarrow> index \<Rightarrow> error + index" where
  "load_lines [] index = Inr index"
| "load_lines (line # ls) index =
     (case split (strip line) of
        [date, offset] \<Rightarrow>
          (case py_int offset of
             None \<Rightarrow> Inl ValueError
           | Some v \<Rightarrow> load_lines ls (dict_set date v index))
      | _ \<Rightarrow> load_lines ls index)"

definition load_index :: "string option \<Rightarrow> error + index" where
  "load_index file =
     (case file of None \<Rightarrow> Inr [] | Some text \<Rightarrow> load_lines (text_lines text) [])"

subsection \<open>\<^verbatim>\<open>update_index\<close>\<close>

text \<open>The watermark read at the start of \<^verbatim>\<open>update_index\<close>: 0 when the file is missing or
  \<^verbatim>\<open>int\<close> raises.\<close>

definition read_last_processed_offset :: "string option \<Rightarrow> int" where
  "read_last_processed_offset info =
     (case info of None \<Rightarrow> 0
      | Some text \<Rightarrow> (case py_int (strip text) of None \<Rightarrow> 0 | Some v \<Rightarrow> v))"

text \<open>The scan loop of \<^verbatim>\<open>update_index\<close>, collecting \<^verbatim>\<open>new_entries\<close>.\<close>

function update_scan ::
  "(string \<Rightarrow> string) \<Rightarrow> string \<Rightarrow> nat \<Rightarrow> index \<Rightarrow> index \<Rightarrow> index" where
  "update_scan dec f offset index new_entries =
     (if readline f offset = [] then new_entries
      else if length (dec (readline f offset)) < 10
        then update_scan dec f (offset + length (readline f offset)) index new_entries
      else if map_of index (take 10 (dec (readline f offset))) = None
              \<and> map_of new_entries (take 10 (dec (readline f offset))) = None
        then update_scan dec f (offset + length (readline f offset)) index
               (dict_set (take 10 (dec (readline f offset))) (int offset) new_entries)
      else update_scan dec f (offset + length (readline f offset)) index new_entries)"
  by pat_completeness auto
termination
  by (relation "measure (\<lambda>(dec, f, offset, index, new_entries). length f - offset)")
     (auto intro: readline_advances)

declare update_scan.simps [simp del]

text \<open>The \<^verbatim>\<open>for date in sorted(new_entries.keys())\<close> loop: it copies the new entries into
  the in-memory index.\<close>

fun merge_entries :: "index \<Rightarrow> string list \<Rightarrow> index \<Rightarrow> index" where
  "merge_entries new_entries [] index = index"
| "merge_entries new_entries (date # ds) index =
     (case map_of new_entries date of
        None \<Rightarrow> merge_entries new_entries ds index
      | Some offset \<Rightarrow> merge_entries new_entries ds (dict_set date offset index))"

text \<open>Opening a file with mode \<^verbatim>\<open>"a"\<close> and writing \<open>text\<close>.\<close>

definition append_file :: "string option \<Rightarrow> string \<Rightarrow> string option" where
  "append_file file text = (case file of None \<Rightarrow> Some text | Some old \<Rightarrow> Some (old @ text))"

datatype message = NoNewLogs | IndexUpdated | NoNewDateEntries

text \<open>
  \<^verbatim>\<open>update_index\<close> returns the message it prints, the in-memory index when it returns, and
  the store. Both exceptions are raised before anything is written: \<^verbatim>\<open>ValueError\<close> by
  \<^verbatim>\<open>load_index\<close>, \<^verbatim>\<open>OSError\<close> by \<^verbatim>\<open>f.seek\<close> on a negative watermark.
\<close>

definition update_index ::
  "(string \<Rightarrow> string) \<Rightarrow> string \<Rightarrow> store \<Rightarrow> error + (message \<times> index \<times> store)" where
  "update_index dec log_file st =
     (case load_index (index_file st) of
        Inl e \<Rightarrow> Inl e
      | Inr index \<Rightarrow>
          let last_processed_offset = read_last_processed_offset (index_info_file st);
              current_size = int (length log_file)
          in if current_size \<le> last_processed_offset then Inr (NoNewLogs, index, st)
             else if last_processed_offset < 0 then Inl OSError
             else
               let new_entries = update_scan dec log_file (nat last_processed_offset) index []
               in if new_entries \<noteq> []
                  then Inr (IndexUpdated,
                            merge_entries new_entries (sort (keys new_entries)) index,
                            st\<lparr>index_file := append_file (index_file st) (write_entries new_entries),
                               index_info_file := Some (str_int current_size)\<rparr>)
                  else Inr (NoNewDateEntries, index,
                            st\<lparr>index_info_file := Some (str_int current_size)\<rparr>))"

text \<open>The two artifacts that a call of \<^verbatim>\<open>update_index\<close> leaves.\<close>

definition artifacts ::
  "error + (message \<times> index \<times> store) \<Rightarrow> error + (string option \<times> string option)" where
  "artifacts r =
     (case r of
        Inl e \<Rightarrow> Inl e
      | Inr (msg, index, st) \<Rightarrow> Inr (index_file st, index_info_file st))"

subsection \<open>\<^verbatim>\<open>get_date_range\<close>\<close>

text \<open>The \<^verbatim>\<open>for date in sorted_dates\<close> loop with its \<^verbatim>\<open>break\<close>.\<close>

fun next_date :: "string \<Rightarrow> string list \<Rightarrow> string option" where
  "next_date target_date [] = None"
| "next_date target_date (date # ds) =
     (if date > target_date then Some date else next_date target_date ds)"

text \<open>\<open>None\<close> is the pair \<^verbatim>\<open>(None, None)\<close>. \<^verbatim>\<open>if next_date:\<close> is false for \<^verbatim>\<open>None\<close> and for
  the empty string. \<^verbatim>\<open>index[next_date]\<close> cannot raise: the key comes from the dictionary.\<close>

definition get_date_range :: "string \<Rightarrow> index \<Rightarrow> string \<Rightarrow> (int \<times> int) option" where
  "get_date_range target_date index log_file =
     (case map_of index target_date of
        None \<Rightarrow> None
      | Some start_offset \<Rightarrow>
          (case next_date target_date (sort (keys index)) of
             None \<Rightarrow> Some (start_offset, int (length log_file))
           | Some nd \<Rightarrow>
               if nd \<noteq> []
               then (case map_of index nd of
                       None \<Rightarrow> None
                     | Some end_offset \<Rightarrow> Some (start_offset, end_offset))
               else Some (start_offset, int (length log_file))))"

section \<open>Extraction\<close>

subsection \<open>\<^verbatim>\<open>process_chunk\<close>\<close>

text \<open>The \<^verbatim>\<open>while True\<close> loop of \<^verbatim>\<open>process_chunk\<close> from position \<open>pos\<close>, with the lines
  collected so far. Its first branch is the extra read once \<open>pos\<close> has reached
  \<open>chunk_end\<close>; it ends the loop whatever it reads.\<close>

function chunk_loop ::
  "(string \<Rightarrow> string) \<Rightarrow> string \<Rightarrow> int \<Rightarrow> string \<Rightarrow> nat \<Rightarrow> string list \<Rightarrow> string list" where
  "chunk_loop dec f chunk_end target_date pos output_lines =
     (if int pos \<ge> chunk_end then
        (if readline f pos = [] then output_lines
         else if startswith (dec (readline f pos)) target_date
           then output_lines @ [dec (readline f pos)]
         else output_lines)
      else if readline f pos = [] then output_lines
      else if startswith (dec (readline f pos)) target_date
        then chunk_loop dec f chunk_end target_date (pos + length (readline f pos))
               (output_lines @ [dec (readline f pos)])
      else chunk_loop dec f chunk_end target_date (pos + length (readline f pos)) output_lines)"
  by pat_completeness auto
termination
  by (relation "measure (\<lambda>(dec, f, chunk_end, target_date, pos, output_lines). length f - pos)")
     (auto intro: readline_advances)

declare chunk_loop.simps [simp del]

text \<open>\<^verbatim>\<open>f.seek\<close> raises \<^verbatim>\<open>OSError\<close> on a negative offset. When \<open>chunk_start\<close> is not 0 one
  \<^verbatim>\<open>readline\<close> is discarded before the loop starts.\<close>

definition process_chunk ::
  "(string \<Rightarrow> string) \<Rightarrow> string \<Rightarrow> int \<Rightarrow> int \<Rightarrow> string \<Rightarrow> error + string list" where
  "process_chunk dec log_file chunk_start chunk_end target_date =
     (if chunk_start < 0 then Inl OSError
      else
        let pos = (if chunk_start \<noteq> 0
                   then nat chunk_start + length (readline log_file (nat chunk_start))
                   else nat chunk_start)
        in Inr (chunk_loop dec log_file chunk_end target_date pos []))"

subsection \<open>\<^verbatim>\<open>extract_logs\<close>\<close>

definition num_workers :: nat where
  "num_workers = 4"

text \<open>The body of \<^verbatim>\<open>for i in range(num_workers)\<close>: the bounds of chunk \<open>i\<close>.\<close>

definition chunk_bounds :: "nat \<Rightarrow> int \<Rightarrow> int \<Rightarrow> int \<Rightarrow> nat \<Rightarrow> int \<times> int" where
  "chunk_bounds workers start_offset end_offset chunk_size i =
     (start_offset + int i * chunk_size,
      if i = workers - 1 then end_offset else start_offset + (int i + 1) * chunk_size)"

definition tasks :: "nat \<Rightarrow> int \<Rightarrow> int \<Rightarrow> (int \<times> int) list" where
  "tasks workers start_offset end_offset =
     (let total_bytes = \<bar>end_offset - start_offset\<bar>;
          chunk_size = total_bytes div int workers
      in map (chunk_bounds workers start_offset end_offset chunk_size) [0..<workers])"

text \<open>\<^verbatim>\<open>pool.map\<close>: the results in task order, or the exception of a task.\<close>

fun pool_map :: "('a \<Rightarrow> error + 'b) \<Rightarrow> 'a list \<Rightarrow> error + 'b list" where
  "pool_map g [] = Inr []"
| "pool_map g (x # xs) =
     (case g x of
        Inl e \<Rightarrow> Inl e
      | Inr y \<Rightarrow> (case pool_map g xs of Inl e \<Rightarrow> Inl e | Inr ys \<Rightarrow> Inr (y # ys)))"

text \<open>The chunk outputs of one extraction over the byte range, in chunk order.\<close>

definition run_chunks ::
  "(string \<Rightarrow> string) \<Rightarrow> nat \<Rightarrow> string \<Rightarrow> int \<Rightarrow> int \<Rightarrow> string \<Rightarrow> error + string list list" where
  "run_chunks dec workers log_file start_offset end_offset target_date =
     pool_map (\<lambda>(chunk_start, chunk_end). process_chunk dec log_file chunk_start chunk_end target_date)
              (tasks workers start_offset end_offset)"

definition output_file :: "string \<Rightarrow> string" where
  "output_file target_date = ''../output/output_'' @ target_date @ ''.txt''"

datatype outcome = TargetNotFound | NoLogsFound | NoData | Saved string

text \<open>The first block of \<^verbatim>\<open>extract_logs\<close>: build the index when the entry list does not
  exist, update it otherwise.\<close>

definition ensure_index :: "(string \<Rightarrow> string) \<Rightarrow> string \<Rightarrow> store \<Rightarrow> error + store" where
  "ensure_index dec log_file st =
     (if index_file st = None then Inr (build_index dec log_file st)
      else (case update_index dec log_file st of
              Inl e \<Rightarrow> Inl e
            | Inr (msg, index, st') \<Rightarrow> Inr st'))"

text \<open>\<^verbatim>\<open>extract_logs\<close> returns what it reports, or the exception that ends it, and the store
  as it is left.\<close>

definition extract_logs ::
  "(string \<Rightarrow> string) \<Rightarrow> string \<Rightarrow> string \<Rightarrow> store \<Rightarrow> (error + outcome) \<times> store" where
  "extract_logs dec log_file target_date st =
     (case ensure_index dec log_file st of
        Inl e \<Rightarrow> (Inl e, st)
      | Inr st1 \<Rightarrow>
          (case load_index (index_file st1) of
             Inl e \<Rightarrow> (Inl e, st1)
           | Inr index \<Rightarrow>
               if map_of index target_date = None then (Inr TargetNotFound, st1)
               else
                 (case get_date_range target_date index log_file of
                    None \<Rightarrow> (Inr NoLogsFound, st1)
                  | Some (start_offset, end_offset) \<Rightarrow>
                      if \<bar>end_offset - start_offset\<bar> \<le> 0 then (Inr NoData, st1)
                      else
                        (case run_chunks dec num_workers log_file start_offset end_offset target_date of
                           Inl e \<Rightarrow> (Inl e, st1)
                         | Inr results \<Rightarrow>
                             (Inr (Saved (output_file target_date)),
                              st1\<lparr>outputs := (outputs st1)
                                     (output_file target_date \<mapsto> concat (concat results))\<rparr>)))))"

section \<open>The lines of a log file\<close>

text \<open>
  What the specification calls the lines of the file, stated without the scan loops. A line
  starts at offset 0 and after every newline; the line at a start is what \<open>readline\<close> reads
  there. A line has a date key when its decoded text has at least 10 characters; the key is
  the first 10 of them.
\<close>

definition line_start :: "string \<Rightarrow> nat \<Rightarrow> bool" where
  "line_start f pos = (pos < length f \<and> (pos = 0 \<or> f ! (pos - 1) = LF))"

definition has_date :: "(string \<Rightarrow> string) \<Rightarrow> string \<Rightarrow> nat \<Rightarrow> string \<Rightarrow> bool" where
  "has_date dec f pos date =
     (line_start f pos \<and> 10 \<le> length (dec (readline f pos)) \<and> take 10 (dec (readline f pos)) = date)"

text \<open>The lines from a position on, each with its offset, in file order.\<close>

function log_lines :: "string \<Rightarrow> nat \<Rightarrow> (nat \<times> string) list" where
  "log_lines f pos =
     (if readline f pos = [] then []
      else (pos, readline f pos) # log_lines f (pos + length (readline f pos)))"
  by pat_completeness auto
termination
  by (relation "measure (\<lambda>(f, pos). length f - pos)") (auto intro: readline_advances)

declare log_lines.simps [simp del]

text \<open>The date keys of the lines read from a position on, in file order.\<close>

definition date_keys :: "(string \<Rightarrow> string) \<Rightarrow> string \<Rightarrow> nat \<Rightarrow> string list" where
  "date_keys dec f pos =
     map (\<lambda>(offset, line). take 10 (dec line))
         (filter (\<lambda>(offset, line). 10 \<le> length (dec line)) (log_lines f pos))"

text \<open>The output the specification requires of an extraction over the byte range
  \<open>[start, end)\<close>: the decoded lines that start in the range and whose first 10 characters are
  the target date, in file order, each once.\<close>

definition matching_lines ::
  "(string \<Rightarrow> string) \<Rightarrow> string \<Rightarrow> int \<Rightarrow> int \<Rightarrow> string \<Rightarrow> string list" where
  "matching_lines dec f start_offset end_offset target_date =
     map (\<lambda>(offset, line). dec line)
         (filter (\<lambda>(offset, line). start_offset \<le> int offset \<and> int offset < end_offset
                                    \<and> take 10 (dec line) = target_date)
                 (log_lines f 0))"

section \<open>Notions used in the proofs\<close>

text \<open>A position is aligned when a scan that starts there reads whole lines: the start of the
  file, the position after a newline, or the end of the file.\<close>

definition aligned :: "string \<Rightarrow> nat \<Rightarrow> bool" where
  "aligned f pos = (pos = 0 \<or> length f \<le> pos \<or> f ! (pos - 1) = LF)"

text \<open>One iteration of the loop of \<^verbatim>\<open>build_index\<close> and of the loop of \<^verbatim>\<open>update_index\<close>, on
  a line and its offset; a scan is the fold of its step over \<open>log_lines\<close>.\<close>

definition build_step :: "(string \<Rightarrow> string) \<Rightarrow> index \<Rightarrow> nat \<times> string \<Rightarrow> index" where
  "build_step dec index ol =
     (if length (dec (snd ol)) < 10 then index
      else if map_of index (take 10 (dec (snd ol))) = None
        then dict_set (take 10 (dec (snd ol))) (int (fst ol)) index
      else index)"

definition update_step :: "(string \<Rightarrow> string) \<Rightarrow> index \<Rightarrow> index \<Rightarrow> nat \<times> string \<Rightarrow> index" where
  "update_step dec index new_entries ol =
     (if length (dec (snd ol)) < 10 then new_entries
      else if map_of index (take 10 (dec (snd ol))) = None
              \<and> map_of new_entries (take 10 (dec (snd ol))) = None
        then dict_set (take 10 (dec (snd ol))) (int (fst ol)) new_entries
      else new_entries)"

text \<open>A line carries the date key \<open>date\<close>; the keys carried by a list of lines.\<close>

definition has_key :: "(string \<Rightarrow> string) \<Rightarrow> string \<Rightarrow> nat \<times> string \<Rightarrow> bool" where
  "has_key dec date ol = (10 \<le> length (dec (snd ol)) \<and> take 10 (dec (snd ol)) = date)"

definition keys_of :: "(string \<Rightarrow> string) \<Rightarrow> (nat \<times> string) list \<Rightarrow> string list" where
  "keys_of dec ls =
     map (\<lambda>(offset, line). take 10 (dec line))
         (filter (\<lambda>(offset, line). 10 \<le> length (dec line)) ls)"

text \<open>A key that \<^verbatim>\<open>load_index\<close> reads back from its entry line: not empty and without
  whitespace.\<close>

definition clean_key :: "string \<Rightarrow> bool" where
  "clean_key date = (date \<noteq> [] \<and> (\<forall>c\<in>set date. \<not> isspace c))"

section \<open>Example files\<close>

text \<open>The log file of the specification's first scenario, a log file whose second date starts
  at offset 13, two records appended to the first file (its second scenario), a log file
  that begins with a line too short for a date, a store without artifacts and the store left
  by building the index of the first file.\<close>

definition spec_log :: string where
  "spec_log = ''2024-01-01 a\<newline>2024-01-01 b\<newline>2024-01-02 c\<newline>''"

definition second_date_log :: string where
  "second_date_log = ''2024-01-01 a\<newline>2024-01-02 b\<newline>2024-01-02 c\<newline>''"

definition appended_records :: string where
  "appended_records = ''2024-01-02 d\<newline>2024-01-03 e\<newline>''"

definition short_line_log :: string where
  "short_line_log = ''restart\<newline>2024-01-01 a\<newline>2024-01-01 b\<newline>''"

text \<open>A record appended to the first file whose key is not in the form of a date.\<close>

definition other_format_record :: string where
  "other_format_record = ''Jan 02 2024 x\<newline>''"

text \<open>A log file indexed while its last line was not yet terminated, with the bytes that
  complete the line; and a log whose lines begin with a date written with blanks, with one
  more record of the same day.\<close>

definition partial_line_log :: string where
  "partial_line_log = ''2024-01-01 a\<newline>2024-01-01 b''"

definition line_completion :: string where
  "line_completion = ''cdefghijklmnop\<newline>''"

definition blank_date_log :: string where
  "blank_date_log = ''Jan 01 2024 a\<newline>''"

definition blank_date_record :: string where
  "blank_date_record = ''Jan 01 2024 b\<newline>''"

definition empty_store :: store where
  "empty_store = \<lparr>index_file = None, index_info_file = None, outputs = Map.empty\<rparr>"

definition indexed_store :: store where
  "indexed_store = \<lparr>index_file = Some ''2024-01-01 0\<newline>2024-01-02 26\<newline>'',
                     index_info_file = Some ''39'', outputs = Map.empty\<rparr>"

section \<open>Reading lines\<close>

subsection \<open>Reading a line\<close>

lemma readline_from_prefix: "take (length (readline_from s)) s = readline_from s"
  by (induction s) auto

lemma readline_from_length_le: "length (readline_from s) \<le> length s"
  by (induction s) auto

lemma readline_from_no_LF_inside:
  "j + 1 < length (readline_from s) \<Longrightarrow> s ! j \<noteq> LF"
proof (induction s arbitrary: j)
  case Nil
  then show ?case by simp
next
  case (Cons c cs)
  then show ?case by (cases j) (auto split: if_splits)
qed

lemma readline_from_ends_LF:
  "length (readline_from s) < length s \<Longrightarrow> s ! (length (readline_from s) - 1) = LF"
proof (induction s)
  case Nil
  then show ?case by simp
next
  case (Cons c cs)
  then show ?case
    by (cases "readline_from cs") (auto split: if_splits simp: readline_from_Nil_iff)
qed

lemma readline_from_append:
  "LF \<in> set s \<Longrightarrow> readline_from (s @ t) = readline_from s"
  by (induction s) auto

lemma readline_length_le: "pos \<le> length f \<Longrightarrow> pos + length (readline f pos) \<le> length f"
  using readline_from_length_le [of "drop pos f"] by (simp add: readline_def)

lemma readline_no_LF_inside:
  assumes "pos \<le> j" and "j + 1 < pos + length (readline f pos)"
  shows "f ! j \<noteq> LF"
proof -
  have "pos + length (readline f pos) \<le> length f \<or> length f < pos"
    using readline_length_le [of pos f] by linarith
  moreover have "length f < pos \<Longrightarrow> readline f pos = []"
    by (simp add: readline_Nil_iff)
  ultimately have le: "pos + length (readline f pos) \<le> length f"
    using assms by auto
  have "drop pos f ! (j - pos) \<noteq> LF"
    using assms by (intro readline_from_no_LF_inside) (simp add: readline_def)
  then show ?thesis
    using assms le by simp
qed

lemma readline_ends_LF:
  assumes "pos + length (readline f pos) < length f"
  shows "f ! (pos + length (readline f pos) - 1) = LF"
proof -
  have p: "pos < length f" using assms by simp
  then have ne: "readline f pos \<noteq> []" by (simp add: readline_Nil_iff)
  have "length (readline_from (drop pos f)) < length (drop pos f)"
    using assms by (simp add: readline_def)
  then have "drop pos f ! (length (readline_from (drop pos f)) - 1) = LF"
    by (rule readline_from_ends_LF)
  moreover have "length (readline_from (drop pos f)) > 0"
    using ne by (simp add: readline_def)
  moreover have "pos + length (readline_from (drop pos f)) - 1
                 = pos + (length (readline_from (drop pos f)) - 1)"
    using calculation(2) by linarith
  ultimately show ?thesis
    using assms p by (simp add: readline_def)
qed

subsection \<open>The scan visits the line starts\<close>

lemma aligned_next:
  assumes "readline f pos \<noteq> []"
  shows "aligned f (pos + length (readline f pos))"
proof (cases "pos + length (readline f pos) < length f")
  case True
  then show ?thesis using readline_ends_LF [OF True] by (simp add: aligned_def)
next
  case False
  then show ?thesis by (simp add: aligned_def)
qed

lemma no_start_inside:
  assumes "pos < q" and "q < pos + length (readline f pos)"
  shows "\<not> line_start f q"
proof
  assume "line_start f q"
  then have "f ! (q - 1) = LF" using assms by (auto simp: line_start_def)
  moreover have "f ! (q - 1) \<noteq> LF"
    using assms by (intro readline_no_LF_inside [of pos]) auto
  ultimately show False by simp
qed

lemma log_lines_lower: "(q, l) \<in> set (log_lines f pos) \<Longrightarrow> pos \<le> q \<and> l = readline f q"
proof (induction f pos rule: log_lines.induct)
  case (1 f pos)
  show ?case
  proof (cases "readline f pos = []")
    case True
    then show ?thesis using "1.prems" by (simp add: log_lines.simps [of f pos])
  next
    case False
    then show ?thesis
      using "1.prems" "1.IH" by (auto simp: log_lines.simps [of f pos])
  qed
qed

lemma log_lines_increasing: "sorted_wrt (<) (map fst (log_lines f pos))"
proof (induction f pos rule: log_lines.induct)
  case (1 f pos)
  show ?case
  proof (cases "readline f pos = []")
    case True
    then show ?thesis by (simp add: log_lines.simps [of f pos])
  next
    case False
    then have len: "0 < length (readline f pos)" by simp
    have "pos < q" if "(q, l) \<in> set (log_lines f (pos + length (readline f pos)))" for q l
      using log_lines_lower [OF that] len by linarith
    then show ?thesis
      using False "1.IH" by (auto simp: log_lines.simps [of f pos])
  qed
qed

lemma log_lines_starts:
  "aligned f pos \<Longrightarrow>
   (q, l) \<in> set (log_lines f pos) \<longleftrightarrow> pos \<le> q \<and> line_start f q \<and> l = readline f q"
proof (induction f pos rule: log_lines.induct)
  case (1 f pos)
  show ?case
  proof (cases "readline f pos = []")
    case True
    then have "length f \<le> pos" by (simp add: readline_Nil_iff)
    then show ?thesis
      using True by (auto simp: log_lines.simps [of f pos] line_start_def)
  next
    case False
    let ?n = "pos + length (readline f pos)"
    have len: "0 < length (readline f pos)" using False by simp
    have p: "pos < length f" using False by (simp add: readline_Nil_iff)
    have st: "line_start f pos"
      using "1.prems" p by (auto simp: aligned_def line_start_def)
    have IH: "(q, l) \<in> set (log_lines f ?n) \<longleftrightarrow> ?n \<le> q \<and> line_start f q \<and> l = readline f q"
      using "1.IH" [OF False aligned_next [OF False]] .
    have unf: "log_lines f pos = (pos, readline f pos) # log_lines f ?n"
      using False by (simp add: log_lines.simps [of f pos])
    show ?thesis
    proof
      assume "(q, l) \<in> set (log_lines f pos)"
      then consider "q = pos" "l = readline f pos" | "(q, l) \<in> set (log_lines f ?n)"
        using unf by auto
      then show "pos \<le> q \<and> line_start f q \<and> l = readline f q"
      proof cases
        case 1
        then show ?thesis using st by simp
      next
        case 2
        then show ?thesis using IH by auto
      qed
    next
      assume a: "pos \<le> q \<and> line_start f q \<and> l = readline f q"
      show "(q, l) \<in> set (log_lines f pos)"
      proof (cases "q = pos")
        case True
        then show ?thesis using a unf by simp
      next
        case False
        then have "pos < q" using a by simp
        then have "?n \<le> q" using no_start_inside [of pos q f] a by force
        then show ?thesis using a IH unf by simp
      qed
    qed
  qed
qed

section \<open>The index built by a scan\<close>

lemma map_of_dict_set: "map_of (dict_set k v d) = (map_of d)(k \<mapsto> v)"
  by (induction d) (auto simp: fun_eq_iff)

lemma dict_set_new: "map_of d k = None \<Longrightarrow> dict_set k v d = d @ [(k, v)]"
  by (induction d) (auto split: if_splits)

lemma build_scan_foldl: "build_scan dec f pos index = foldl (build_step dec) index (log_lines f pos)"
proof (induction dec f pos index rule: build_scan.induct)
  case (1 dec f offset index)
  show ?case
  proof (cases "readline f offset = []")
    case True
    then show ?thesis
      by (simp add: build_scan.simps [of dec f offset] log_lines.simps [of f offset])
  next
    case False
    then show ?thesis
      using "1.IH"
      by (simp add: build_scan.simps [of dec f offset index] log_lines.simps [of f offset]
                    build_step_def)
  qed
qed

lemma map_of_foldl_build_step:
  "map_of (foldl (build_step dec) index ls) date =
     (case map_of index date of
        Some v \<Rightarrow> Some v
      | None \<Rightarrow> map_option (\<lambda>ol. int (fst ol)) (find (has_key dec date) ls))"
proof (induction ls arbitrary: index)
  case Nil
  then show ?case by (simp split: option.splits)
next
  case (Cons ol ls)
  show ?case
    by (simp add: Cons.IH)
       (auto simp: build_step_def has_key_def map_of_dict_set split: option.splits)
qed

lemma find_first_offset:
  fixes ls :: "(nat \<times> 'b) list"
  assumes "sorted_wrt (<) (map fst ls)" and "find P ls = Some ol" and "ol' \<in> set ls" and "P ol'"
  shows "fst ol \<le> fst ol'"
  using assms
proof (induction ls)
  case Nil
  then show ?case by simp
next
  case (Cons x xs)
  show ?case
  proof (cases "P x")
    case True
    then have "ol = x" using Cons.prems(2) by simp
    moreover have "fst x < fst ol'" if "ol' \<in> set xs"
      using that Cons.prems(1) by auto
    ultimately show ?thesis using Cons.prems(3) by auto
  next
    case False
    then have "find P xs = Some ol" "ol' \<in> set xs"
      using Cons.prems by auto
    then show ?thesis using Cons.IH Cons.prems by simp
  qed
qed

lemma find_has_key_least:
  assumes "find (has_key dec date) (log_lines f 0) = Some ol"
  shows "fst ol = (LEAST pos. has_date dec f pos date)"
proof -
  have al: "aligned f 0" by (simp add: aligned_def)
  from assms have mem: "ol \<in> set (log_lines f 0)" and k: "has_key dec date ol"
    by (auto simp: find_Some_iff in_set_conv_nth)
  obtain q l where ol: "ol = (q, l)" by (cases ol)
  have q: "line_start f q" "l = readline f q"
    using mem log_lines_starts [OF al, of q l] by (simp_all add: ol)
  have hd: "has_date dec f q date"
    using q k by (simp add: has_date_def has_key_def ol)
  have least: "q \<le> q'" if "has_date dec f q' date" for q'
  proof -
    have "(q', readline f q') \<in> set (log_lines f 0)"
      using that log_lines_starts [OF al, of q' "readline f q'"] by (simp add: has_date_def)
    moreover have "has_key dec date (q', readline f q')"
      using that by (simp add: has_date_def has_key_def)
    ultimately show ?thesis
      using find_first_offset [OF log_lines_increasing assms] by (fastforce simp: ol)
  qed
  show ?thesis
    using hd least by (simp add: ol Least_equality)
qed

lemma find_has_key_None:
  assumes "find (has_key dec date) (log_lines f 0) = None"
  shows "\<not> has_date dec f pos date"
proof
  assume h: "has_date dec f pos date"
  have al: "aligned f 0" by (simp add: aligned_def)
  have "(pos, readline f pos) \<in> set (log_lines f 0)"
    using h log_lines_starts [OF al, of pos "readline f pos"] by (simp add: has_date_def)
  moreover have "has_key dec date (pos, readline f pos)"
    using h by (simp add: has_date_def has_key_def)
  ultimately show False
    using assms by (auto simp: find_None_iff)
qed

text \<open>
  Claim C4. After \<^verbatim>\<open>build_index\<close> the entry list is written from the index the scan built,
  and in that index every date that is the key of some line of the file is stored with the
  least offset among the lines that carry it, while a date that no line carries has no entry.
  A line carries a date when its decoded text has at least 10 characters, the first 10 being
  the date: shorter lines add nothing, the first line with a key records its offset, and later
  lines with that key leave it as it is.
\<close>

theorem build_index_first_offsets:
  "index_file (build_index dec log_file st) = Some (write_entries (build_scan dec log_file 0 []))
   \<and> map_of (build_scan dec log_file 0 []) date =
       (if \<exists>pos. has_date dec log_file pos date
        then Some (int (LEAST pos. has_date dec log_file pos date))
        else None)"
proof -
  have "map_of (build_scan dec log_file 0 []) date =
          map_option (\<lambda>ol. int (fst ol)) (find (has_key dec date) (log_lines log_file 0))"
    by (simp add: build_scan_foldl map_of_foldl_build_step)
  also have "\<dots> = (if \<exists>pos. has_date dec log_file pos date
                   then Some (int (LEAST pos. has_date dec log_file pos date))
                   else None)"
  proof (cases "find (has_key dec date) (log_lines log_file 0)")
    case None
    then show ?thesis using find_has_key_None [OF None] by simp
  next
    case (Some ol)
    have "fst ol = (LEAST pos. has_date dec log_file pos date)"
      by (rule find_has_key_least [OF Some])
    moreover have "\<exists>pos. has_date dec log_file pos date"
    proof -
      have al: "aligned log_file 0" by (simp add: aligned_def)
      from Some have mem: "ol \<in> set (log_lines log_file 0)" and k: "has_key dec date ol"
        by (auto simp: find_Some_iff in_set_conv_nth)
      then have "has_date dec log_file (fst ol) date"
        using log_lines_starts [OF al, of "fst ol" "snd ol"]
        by (simp add: has_date_def has_key_def)
      then show ?thesis by blast
    qed
    ultimately show ?thesis using Some by simp
  qed
  finally show ?thesis by (simp add: build_index_def)
qed

theorem build_index_first_offsets_witness:
  "has_date decode_ascii short_line_log 8 ''2024-01-01''
   \<and> has_date decode_ascii short_line_log 21 ''2024-01-01''
   \<and> build_scan decode_ascii short_line_log 0 [] = [(''2024-01-01'', 8)]
   \<and> (LEAST pos. has_date decode_ascii short_line_log pos ''2024-01-01'') = 8
   \<and> map_of (build_scan decode_ascii short_line_log 0 []) ''restart'' = None
   \<and> index_file (build_index decode_ascii short_line_log empty_store) = Some ''2024-01-01 8\<newline>''"
proof -
  note inst = build_index_first_offsets [of decode_ascii short_line_log empty_store "''2024-01-01''"]
  have a: "has_date decode_ascii short_line_log 8 ''2024-01-01''" by code_simp
  have b: "has_date decode_ascii short_line_log 21 ''2024-01-01''" by code_simp
  have c: "build_scan decode_ascii short_line_log 0 [] = [(''2024-01-01'', 8)]" by code_simp
  have d: "(LEAST pos. has_date decode_ascii short_line_log pos ''2024-01-01'') = 8"
  proof -
    have ex: "\<exists>pos. has_date decode_ascii short_line_log pos ''2024-01-01''"
      using a by blast
    have "map_of (build_scan decode_ascii short_line_log 0 []) ''2024-01-01''
          = Some (int (LEAST pos. has_date decode_ascii short_line_log pos ''2024-01-01''))"
      using inst ex by simp
    then show ?thesis by (simp add: c)
  qed
  have e: "map_of (build_scan decode_ascii short_line_log 0 []) ''restart'' = None"
    by (simp add: c)
  have f: "index_file (build_index decode_ascii short_line_log empty_store) = Some ''2024-01-01 8\<newline>''"
    by code_simp
  show ?thesis using a b c d e f by blast
qed

text \<open>
  Claim C5. \<^verbatim>\<open>build_index\<close> is idempotent on its artifacts: a second run on the same log
  file leaves the store of the first run as it is, and the entry list and the watermark it
  writes do not depend on the store it starts from.
\<close>

theorem build_index_idempotent:
  "build_index dec log_file (build_index dec log_file st) = build_index dec log_file st
   \<and> index_file (build_index dec log_file st) = index_file (build_index dec log_file st')
   \<and> index_info_file (build_index dec log_file st) = index_info_file (build_index dec log_file st')"
  by (simp add: build_index_def)

theorem build_index_idempotent_witness:
  "build_index decode_ascii spec_log (build_index decode_ascii spec_log empty_store)
     = build_index decode_ascii spec_log empty_store
   \<and> index_file (build_index decode_ascii spec_log empty_store)
       = Some ''2024-01-01 0\<newline>2024-01-02 26\<newline>''
   \<and> index_file (build_index decode_ascii spec_log indexed_store)
       = Some ''2024-01-01 0\<newline>2024-01-02 26\<newline>''
   \<and> index_info_file (build_index decode_ascii spec_log empty_store) = Some ''39''"
proof -
  have a: "index_file (build_index decode_ascii spec_log empty_store)
           = Some ''2024-01-01 0\<newline>2024-01-02 26\<newline>''"
    by code_simp
  have b: "index_info_file (build_index decode_ascii spec_log empty_store) = Some ''39''"
    by code_simp
  show ?thesis
    using a b build_index_idempotent [of decode_ascii spec_log empty_store indexed_store]
    by simp
qed

section \<open>Loading the index\<close>

lemma load_lines_bad_offset:
  "split (strip line) = [date, offset] \<Longrightarrow> py_int offset = None \<Longrightarrow>
   load_lines (before @ line # rest) index = Inl ValueError"
proof (induction before arbitrary: index)
  case Nil
  then show ?case by simp
next
  case (Cons l ls)
  then show ?case by (auto split: list.splits option.splits)
qed

lemma load_lines_skip:
  "length (split (strip line)) \<noteq> 2 \<Longrightarrow>
   load_lines (before @ line # rest) index = load_lines (before @ rest) index"
proof (induction before arbitrary: index)
  case Nil
  then show ?case by (auto split: list.splits)
next
  case (Cons l ls)
  then show ?case by (auto split: list.splits option.splits)
qed

text \<open>
  Claim C10. \<^verbatim>\<open>load_index\<close> is not total: whenever the entry list has a line of exactly two
  whitespace-separated fields whose second field \<^verbatim>\<open>int\<close> rejects, the conversion raises
  \<^verbatim>\<open>ValueError\<close> and the whole load ends with it. The entry list \<^verbatim>\<open>2024-01-01 abc\<close> is one.
\<close>

theorem load_index_raises_on_bad_offset:
  assumes "line \<in> set (text_lines text)"
    and "split (strip line) = [date, offset]"
    and "py_int offset = None"
  shows "load_index (Some text) = Inl ValueError"
  using assms unfolding load_index_def
  by (auto simp: in_set_conv_decomp load_lines_bad_offset)

theorem load_index_raises_on_bad_offset_witness:
  "''2024-01-01 abc\<newline>'' \<in> set (text_lines ''2024-01-01 abc\<newline>'')
   \<and> split (strip ''2024-01-01 abc\<newline>'') = [''2024-01-01'', ''abc'']
   \<and> py_int ''abc'' = None
   \<and> load_index (Some ''2024-01-01 abc\<newline>'') = Inl ValueError"
proof -
  have l: "''2024-01-01 abc\<newline>'' \<in> set (text_lines ''2024-01-01 abc\<newline>'')"
    by code_simp
  have s: "split (strip ''2024-01-01 abc\<newline>'') = [''2024-01-01'', ''abc'']"
    by code_simp
  have i: "py_int ''abc'' = None"
    by code_simp
  show ?thesis
    using l s i load_index_raises_on_bad_offset [OF l s i] by simp
qed

text \<open>
  Claim C8. Loading is defensive: an entry list that does not exist loads as the empty index;
  a line that does not split into exactly two fields is skipped, the load going on as if the
  line were not there; a watermark artifact that is missing, or whose stripped text \<^verbatim>\<open>int\<close>
  rejects, is read as 0.
\<close>

theorem load_index_defensive:
  "load_index None = Inr []
   \<and> (length (split (strip line)) \<noteq> 2 \<longrightarrow>
        load_lines (before @ line # rest) index = load_lines (before @ rest) index)
   \<and> read_last_processed_offset None = 0
   \<and> (py_int (strip text) = None \<longrightarrow> read_last_processed_offset (Some text) = 0)"
  by (simp add: load_index_def load_lines_skip read_last_processed_offset_def)

theorem load_index_defensive_witness:
  "load_index None = Inr []
   \<and> length (split (strip ''2024-01-02 13 extra\<newline>'')) \<noteq> 2
   \<and> load_index (Some ''2024-01-01 0\<newline>2024-01-02 13 extra\<newline>2024-01-03 26\<newline>'')
       = Inr [(''2024-01-01'', 0), (''2024-01-03'', 26)]
   \<and> py_int (strip ''12x\<newline>'') = None
   \<and> read_last_processed_offset (Some ''12x\<newline>'') = 0"
proof -
  note inst = load_index_defensive
         [of "''2024-01-02 13 extra\<newline>''" "[''2024-01-01 0\<newline>'']"
             "[''2024-01-03 26\<newline>'']" "[]" "''12x\<newline>''"]
  have f: "length (split (strip ''2024-01-02 13 extra\<newline>'')) \<noteq> 2"
    by code_simp
  have t: "text_lines ''2024-01-01 0\<newline>2024-01-02 13 extra\<newline>2024-01-03 26\<newline>''
           = [''2024-01-01 0\<newline>''] @ ''2024-01-02 13 extra\<newline>'' # [''2024-01-03 26\<newline>'']"
    by code_simp
  have r: "load_lines ([''2024-01-01 0\<newline>''] @ [''2024-01-03 26\<newline>'']) []
           = Inr [(''2024-01-01'', 0), (''2024-01-03'', 26)]"
    by code_simp
  have p: "py_int (strip ''12x\<newline>'') = None"
    by code_simp
  have w: "load_index (Some ''2024-01-01 0\<newline>2024-01-02 13 extra\<newline>2024-01-03 26\<newline>'')
           = Inr [(''2024-01-01'', 0), (''2024-01-03'', 26)]"
    unfolding load_index_def option.case t using inst f r by presburger
  have z: "read_last_processed_offset (Some ''12x\<newline>'') = 0"
    using inst p by blast
  show ?thesis
    using f w p z inst by blast
qed

section \<open>Resolving a date range\<close>

lemma next_date_sorted:
  "sorted ds \<Longrightarrow>
   next_date target_date ds =
     (if {d \<in> set ds. target_date < d} = {} then None
      else Some (Min {d \<in> set ds. target_date < d}))"
proof (induction ds)
  case Nil
  then show ?case by simp
next
  case (Cons x xs)
  show ?case
  proof (cases "target_date < x")
    case True
    have "Min {d \<in> set (x # xs). target_date < d} = x"
    proof (rule Min_eqI)
      show "finite {d \<in> set (x # xs). target_date < d}" by simp
      show "x \<in> {d \<in> set (x # xs). target_date < d}" using True by simp
      show "x \<le> y" if "y \<in> {d \<in> set (x # xs). target_date < d}" for y
        using that Cons.prems by auto
    qed
    moreover have "{d \<in> set (x # xs). target_date < d} \<noteq> {}"
      using True by auto
    ultimately show ?thesis using True by simp
  next
    case False
    then have "{d \<in> set (x # xs). target_date < d} = {d \<in> set xs. target_date < d}"
      by auto
    then show ?thesis using False Cons by simp
  qed
qed

lemma next_date_nonempty: "next_date target_date ds = Some nd \<Longrightarrow> nd \<noteq> [] \<and> nd \<in> set ds"
  by (induction ds) (auto split: if_splits)

text \<open>
  Claim C3. \<^verbatim>\<open>get_date_range\<close> returns "not found" when the target date has no entry.
  Otherwise the start is the target's stored offset, and the end is the stored offset of the
  least indexed date strictly greater than the target, or the size of the log file when no
  indexed date is greater.
\<close>

theorem get_date_range_correct:
  "(map_of index target_date = None \<longrightarrow> get_date_range target_date index log_file = None)
   \<and> (map_of index target_date = Some start_offset
        \<and> {d \<in> set (keys index). target_date < d} \<noteq> {} \<longrightarrow>
        (\<exists>end_offset.
           map_of index (Min {d \<in> set (keys index). target_date < d}) = Some end_offset
           \<and> get_date_range target_date index log_file = Some (start_offset, end_offset)))
   \<and> (map_of index target_date = Some start_offset
        \<and> {d \<in> set (keys index). target_date < d} = {} \<longrightarrow>
        get_date_range target_date index log_file = Some (start_offset, int (length log_file)))"
proof -
  let ?later = "{d \<in> set (keys index). target_date < d}"
  have nd: "next_date target_date (sort (keys index)) =
              (if ?later = {} then None else Some (Min ?later))"
    using next_date_sorted [of "sort (keys index)" target_date] by simp
  have a: "get_date_range target_date index log_file = None"
    if "map_of index target_date = None"
    using that by (simp add: get_date_range_def)
  have b: "\<exists>end_offset. map_of index (Min ?later) = Some end_offset
             \<and> get_date_range target_date index log_file = Some (start_offset, end_offset)"
    if s: "map_of index target_date = Some start_offset" and l: "?later \<noteq> {}"
  proof -
    have m: "next_date target_date (sort (keys index)) = Some (Min ?later)"
      using nd l by simp
    then have ne: "Min ?later \<noteq> []" and mem: "Min ?later \<in> set (keys index)"
      using next_date_nonempty [OF m] by simp_all
    from mem obtain e where e: "map_of index (Min ?later) = Some e"
      by (metis keys_def map_of_eq_None_iff not_Some_eq set_map)
    show ?thesis
      using s m ne e by (simp add: get_date_range_def)
  qed
  have c: "get_date_range target_date index log_file = Some (start_offset, int (length log_file))"
    if "map_of index target_date = Some start_offset" and "?later = {}"
    using that nd by (simp add: get_date_range_def)
  show ?thesis using a b c by blast
qed

theorem get_date_range_correct_witness:
  "map_of [(''2024-01-03'', 52), (''2024-01-01'', 0), (''2024-01-02'', 26 :: int)] ''2024-01-01'' = Some 0
   \<and> {d \<in> set (keys [(''2024-01-03'', 52), (''2024-01-01'', 0), (''2024-01-02'', 26 :: int)]).
        ''2024-01-01'' < d} \<noteq> {}
   \<and> get_date_range ''2024-01-01'' [(''2024-01-03'', 52), (''2024-01-01'', 0), (''2024-01-02'', 26)] spec_log
       = Some (0, 26)
   \<and> map_of [(''2024-01-01'', 0), (''2024-01-02'', 26 :: int)] ''2024-01-02'' = Some 26
   \<and> {d \<in> set (keys [(''2024-01-01'', 0), (''2024-01-02'', 26 :: int)]). ''2024-01-02'' < d} = {}
   \<and> get_date_range ''2024-01-02'' [(''2024-01-01'', 0), (''2024-01-02'', 26)] spec_log
       = Some (26, 39)
   \<and> map_of [(''2024-01-01'', 0), (''2024-01-02'', 26 :: int)] ''2024-03-05'' = None
   \<and> get_date_range ''2024-03-05'' [(''2024-01-01'', 0), (''2024-01-02'', 26)] spec_log = None"
proof -
  let ?i3 = "[(''2024-01-03'', 52), (''2024-01-01'', 0), (''2024-01-02'', 26 :: int)]"
  let ?i2 = "[(''2024-01-01'', 0), (''2024-01-02'', 26 :: int)]"
  have a1: "map_of ?i3 ''2024-01-01'' = Some 0" by simp
  have a2: "{d \<in> set (keys ?i3). ''2024-01-01'' < d} \<noteq> {}"
  proof -
    have "''2024-01-01'' < ''2024-01-02''" by code_simp
    then have "''2024-01-02'' \<in> {d \<in> set (keys ?i3). ''2024-01-01'' < d}"
      by (simp add: keys_def)
    then show ?thesis by blast
  qed
  have a3: "get_date_range ''2024-01-01'' ?i3 spec_log = Some (0, 26)" by code_simp
  have b1: "map_of ?i2 ''2024-01-02'' = Some 26" by simp
  have b2: "{d \<in> set (keys ?i2). ''2024-01-02'' < d} = {}"
  proof -
    have "\<not> ''2024-01-02'' < ''2024-01-01''" "\<not> ''2024-01-02'' < ''2024-01-02''" by code_simp+
    then show ?thesis by (auto simp: keys_def)
  qed
  have b3: "get_date_range ''2024-01-02'' ?i2 spec_log = Some (26, 39)"
    using get_date_range_correct [of ?i2 "''2024-01-02''" spec_log 26] b1 b2
    by (simp add: spec_log_def)
  have c1: "map_of ?i2 ''2024-03-05'' = None" by simp
  have c2: "get_date_range ''2024-03-05'' ?i2 spec_log = None"
    using get_date_range_correct [of ?i2 "''2024-03-05''" spec_log 0] c1 by blast
  show ?thesis using a1 a2 a3 b1 b2 b3 c1 c2 by blast
qed

section \<open>Updating the index\<close>

text \<open>
  Claim C6. When the size of the log file is at most the watermark, \<^verbatim>\<open>update_index\<close> does
  nothing: it returns with the message of "no new logs", the in-memory index is the one it
  loaded and the store (entry list, watermark) is the one it was given. A truncated or
  unchanged file is no error; the only exception left is the one \<^verbatim>\<open>load_index\<close> raises on
  an entry list it cannot read, before the sizes are compared.
\<close>

theorem update_index_noop:
  assumes "int (length log_file) \<le> read_last_processed_offset (index_info_file st)"
  shows "update_index dec log_file st =
           (case load_index (index_file st) of
              Inl e \<Rightarrow> Inl e
            | Inr index \<Rightarrow> Inr (NoNewLogs, index, st))"
  using assms by (simp add: update_index_def split: sum.splits)

theorem update_index_noop_witness:
  "int (length spec_log) \<le> read_last_processed_offset (index_info_file indexed_store)
   \<and> update_index decode_ascii spec_log indexed_store
       = Inr (NoNewLogs, [(''2024-01-01'', 0), (''2024-01-02'', 26)], indexed_store)"
proof -
  have h: "int (length spec_log) \<le> read_last_processed_offset (index_info_file indexed_store)"
    by code_simp
  have l: "load_index (index_file indexed_store) = Inr [(''2024-01-01'', 0), (''2024-01-02'', 26)]"
    by code_simp
  show ?thesis
    using h l update_index_noop [OF h, of decode_ascii] by simp
qed

subsection \<open>Printing and parsing integers\<close>

lemma digit_char_props: "k < 10 \<Longrightarrow> isdigit (digit_char k) \<and> digit_val (digit_char k) = k"
  by (simp add: isdigit_def digit_val_def digit_char_def)

lemma str_nat_digits: "c \<in> set (str_nat n) \<Longrightarrow> isdigit c"
proof (induction n arbitrary: c rule: str_nat.induct)
  case (1 n)
  show ?case
  proof (cases "n < 10")
    case True
    then show ?thesis using "1.prems" by (simp add: str_nat.simps [of n] digit_char_props)
  next
    case False
    then show ?thesis
      using "1.prems" "1.IH" by (auto simp: str_nat.simps [of n] digit_char_props)
  qed
qed

lemma str_nat_nonempty: "str_nat n \<noteq> []"
  by (simp add: str_nat.simps [of n])

lemma parse_digits_all:
  "\<forall>c\<in>set ds. isdigit c \<Longrightarrow>
   parse_digits acc ds = Some (foldl (\<lambda>a c. a * 10 + digit_val c) acc ds)"
  by (induction acc ds rule: parse_digits.induct) auto

lemma foldl_str_nat: "foldl (\<lambda>a c. a * 10 + digit_val c) 0 (str_nat n) = n"
proof (induction n rule: str_nat.induct)
  case (1 n)
  show ?case
  proof (cases "n < 10")
    case True
    then show ?thesis by (simp add: str_nat.simps [of n] digit_char_props)
  next
    case False
    then show ?thesis
      using "1.IH" by (simp add: str_nat.simps [of n] digit_char_props)
  qed
qed

lemma parse_unsigned_str_nat: "parse_unsigned (str_nat n) = Some n"
proof (cases "str_nat n")
  case Nil
  then show ?thesis using str_nat_nonempty by simp
next
  case (Cons c cs)
  have d: "\<forall>x\<in>set (c # cs). isdigit x"
    using str_nat_digits [of _ n] Cons by simp
  have "foldl (\<lambda>a c. a * 10 + digit_val c) 0 (c # cs) = n"
    using foldl_str_nat [of n] Cons by simp
  then show ?thesis
    using d Cons by (simp add: parse_unsigned_def parse_digits_all)
qed

lemma isdigit_not_sign: "isdigit c \<Longrightarrow> c \<noteq> CHR ''-'' \<and> c \<noteq> CHR ''+''"
  by (auto simp: isdigit_def)

lemma py_int_str_int: "py_int (str_int v) = Some v"
proof (cases "v < 0")
  case True
  then show ?thesis by (simp add: str_int_def py_int_def parse_unsigned_str_nat)
next
  case False
  obtain c cs where cs: "str_nat (nat v) = c # cs"
    using str_nat_nonempty [of "nat v"] by (cases "str_nat (nat v)") auto
  then have "isdigit c" using str_nat_digits [of c "nat v"] by simp
  then have "c \<noteq> CHR ''-''" "c \<noteq> CHR ''+''" using isdigit_not_sign by auto
  moreover have "parse_unsigned (c # cs) = Some (nat v)"
    using parse_unsigned_str_nat [of "nat v"] cs by simp
  ultimately show ?thesis using False cs by (simp add: str_int_def py_int_def)
qed

lemma isdigit_not_space: "isdigit c \<Longrightarrow> \<not> isspace c"
  by (auto simp: isdigit_def isspace_def Let_def)

lemma str_int_not_space: "c \<in> set (str_int v) \<Longrightarrow> \<not> isspace c"
  by (auto simp: str_int_def isspace_def Let_def dest!: str_nat_digits isdigit_not_space
           split: if_splits)

lemma str_int_nonempty: "str_int v \<noteq> []"
  by (simp add: str_int_def str_nat_nonempty)

subsection \<open>Stripping and splitting an entry line\<close>

lemma isspace_LF: "isspace LF" and isspace_CR: "isspace CR" and isspace_blank: "isspace CHR '' ''"
  by (simp_all add: isspace_def LF_def CR_def)

lemma strip_entry_line:
  assumes "date \<noteq> []" and "\<forall>c\<in>set date. \<not> isspace c"
  shows "strip (entry_line date v) = date @ '' '' @ str_int v"
proof -
  obtain c cs where d: "date = c # cs" using assms(1) by (cases date) auto
  then have c: "\<not> isspace c" using assms(2) by simp
  have front: "dropWhile isspace (entry_line date v) = entry_line date v"
    using c by (simp add: entry_line_def d)
  obtain ds x where sv: "str_int v = ds @ [x]"
    using str_int_nonempty [of v] by (metis rev_exhaust)
  then have x: "\<not> isspace x" using str_int_not_space [of x v] by simp
  have rear: "dropWhile isspace (rev (entry_line date v)) = rev (date @ '' '' @ str_int v)"
    using x by (simp add: entry_line_def sv isspace_LF)
  show ?thesis
    by (simp only: strip_def front rear rev_rev_ident)
qed

lemma split_acc_word:
  "\<forall>c\<in>set w. \<not> isspace c \<Longrightarrow> split_acc cur (w @ rest) = split_acc (cur @ w) rest"
  by (induction w arbitrary: cur) auto

lemma split_entry:
  assumes "date \<noteq> []" and "\<forall>c\<in>set date. \<not> isspace c"
  shows "split (strip (entry_line date v)) = [date, str_int v]"
proof -
  have "split_acc [] (date @ CHR '' '' # str_int v) = split_acc date (CHR '' '' # str_int v)"
    using split_acc_word [of date "[]" "CHR '' '' # str_int v"] assms(2) by simp
  also have "\<dots> = date # split_acc [] (str_int v)"
    using assms(1) by (simp add: isspace_blank)
  also have "split_acc [] (str_int v) = split_acc (str_int v) []"
    using split_acc_word [of "str_int v" "[]" "[]"] str_int_not_space [of _ v] by auto
  finally show ?thesis
    using assms by (simp add: strip_entry_line split_def str_int_nonempty)
qed

subsection \<open>The lines of a written entry list\<close>

lemma universal_newlines_id: "CR \<notin> set s \<Longrightarrow> universal_newlines s = s"
  by (induction s rule: universal_newlines.induct) auto

lemma lines_acc_line:
  "LF \<notin> set l \<Longrightarrow> lines_acc cur (l @ LF # rest) = (cur @ l @ [LF]) # lines_acc [] rest"
  by (induction l arbitrary: cur) auto

lemma lines_acc_concat:
  "\<forall>x\<in>set xs. LF \<notin> set (body x) \<Longrightarrow>
   lines_acc [] (concat (map (\<lambda>x. body x @ [LF]) xs)) = map (\<lambda>x. body x @ [LF]) xs"
proof (induction xs)
  case Nil
  then show ?case by simp
next
  case (Cons x xs)
  then show ?case
    using lines_acc_line [of "body x" "[]" "concat (map (\<lambda>x. body x @ [LF]) xs)"] by simp
qed

lemma not_space_not_newline: "\<not> isspace c \<Longrightarrow> c \<noteq> LF \<and> c \<noteq> CR"
  using isspace_LF isspace_CR by auto

lemma entry_body_clean:
  assumes "\<forall>c\<in>set date. \<not> isspace c"
  shows "LF \<notin> set (date @ '' '' @ str_int v)" and "CR \<notin> set (date @ '' '' @ str_int v)"
  using assms str_int_not_space [of _ v] not_space_not_newline
  by (auto simp: LF_def CR_def)

subsection \<open>Loading a written entry list\<close>

lemma load_lines_entries:
  "\<forall>d\<in>set ds. clean_key d \<Longrightarrow>
   load_lines (map (\<lambda>d. entry_line d (v d)) ds) acc
     = Inr (foldl (\<lambda>idx d. dict_set d (v d) idx) acc ds)"
  by (induction ds arbitrary: acc) (simp_all add: split_entry py_int_str_int clean_key_def)

lemma map_of_foldl_dict_set:
  "map_of (foldl (\<lambda>idx d. dict_set d (v d) idx) acc ds) k
     = (if k \<in> set ds then Some (v k) else map_of acc k)"
  by (induction ds arbitrary: acc) (auto simp: map_of_dict_set)

lemma write_entries_alt:
  "write_entries index
     = concat (map (\<lambda>d. (d @ '' '' @ str_int (the (map_of index d))) @ [LF]) (sort (keys index)))"
proof -
  have "(case map_of index d of None \<Rightarrow> [] | Some offset \<Rightarrow> entry_line d offset)
          = (d @ '' '' @ str_int (the (map_of index d))) @ [LF]"
    if "d \<in> set (sort (keys index))" for d
  proof -
    from that have "d \<in> fst ` set index" by (simp add: keys_def)
    then obtain v where "map_of index d = Some v"
      by (metis map_of_eq_None_iff not_Some_eq)
    then show ?thesis by (simp add: entry_line_def)
  qed
  then show ?thesis
    unfolding write_entries_def by (intro arg_cong [where f = concat] map_cong) auto
qed

lemma load_written_index:
  assumes "\<forall>d\<in>set (keys index). clean_key d"
  shows "\<exists>loaded. load_index (Some (write_entries index)) = Inr loaded
                  \<and> map_of loaded = map_of index"
proof -
  let ?ds = "sort (keys index)"
  let ?v = "\<lambda>d. the (map_of index d)"
  let ?body = "\<lambda>d. d @ '' '' @ str_int (?v d)"
  have cl: "\<forall>d\<in>set ?ds. clean_key d" using assms by simp
  have noLF: "\<forall>d\<in>set ?ds. LF \<notin> set (?body d)"
    using cl entry_body_clean(1) unfolding clean_key_def by blast
  have noCR: "CR \<notin> set (write_entries index)"
    using cl entry_body_clean(2) not_space_not_newline isspace_LF
    unfolding clean_key_def write_entries_alt
    by (auto simp del: append_assoc simp: LF_def CR_def)
  have "text_lines (write_entries index) = map (\<lambda>d. ?body d @ [LF]) ?ds"
    unfolding text_lines_def universal_newlines_id [OF noCR]
    unfolding write_entries_alt
    by (rule lines_acc_concat [OF noLF])
  also have "\<dots> = map (\<lambda>d. entry_line d (?v d)) ?ds"
    by (simp add: entry_line_def)
  finally have tl: "text_lines (write_entries index) = map (\<lambda>d. entry_line d (?v d)) ?ds" .
  let ?loaded = "foldl (\<lambda>idx d. dict_set d (?v d) idx) [] ?ds"
  have ld: "load_index (Some (write_entries index)) = Inr ?loaded"
    by (simp add: load_index_def tl load_lines_entries [OF cl])
  have "map_of ?loaded k = map_of index k" for k
  proof (cases "k \<in> set (keys index)")
    case True
    then obtain v where "map_of index k = Some v"
      by (metis keys_def map_of_eq_None_iff not_Some_eq set_map)
    then show ?thesis using True by (simp add: map_of_foldl_dict_set)
  next
    case False
    then have "map_of index k = None"
      by (simp add: keys_def map_of_eq_None_iff)
    then show ?thesis using False by (simp add: map_of_foldl_dict_set)
  qed
  then show ?thesis using ld by blast
qed

lemma strip_str_int: "strip (str_int v) = str_int v"
proof -
  have ne: "str_int v \<noteq> []" by (rule str_int_nonempty)
  then have "\<not> isspace (hd (str_int v))" "\<not> isspace (hd (rev (str_int v)))"
    using str_int_not_space [of _ v] by (simp_all add: hd_rev)
  then have "dropWhile isspace (str_int v) = str_int v"
    and "dropWhile isspace (rev (str_int v)) = rev (str_int v)"
    by (simp_all add: dropWhile_eq_self_iff)
  then show ?thesis by (simp add: strip_def)
qed

lemma read_written_watermark: "read_last_processed_offset (Some (str_int v)) = v"
  by (simp add: read_last_processed_offset_def strip_str_int py_int_str_int)

subsection \<open>Writing two runs of entries\<close>

lemma sort_append_ordered:
  fixes xs ys :: "'a::linorder list"
  assumes "\<forall>x\<in>set xs. \<forall>y\<in>set ys. x \<le> y"
  shows "sort (xs @ ys) = sort xs @ sort ys"
  using assms
proof (induction xs)
  case Nil
  then show ?case by simp
next
  case (Cons x xs)
  have "insort x (as @ sort ys) = insort x as @ sort ys" for as
  proof (induction as)
    case Nil
    show ?case
    proof (cases "sort ys")
      case Nil
      then show ?thesis by simp
    next
      case (Cons b bs)
      then have "b \<in> set (sort ys)" by simp
      then have "x \<le> b" using \<open>\<forall>x\<in>set (x # xs). \<forall>y\<in>set ys. x \<le> y\<close> by simp
      then show ?thesis using Cons by simp
    qed
  next
    case (Cons a as)
    then show ?case by simp
  qed
  then show ?case using Cons by simp
qed

lemma write_entries_append:
  assumes "\<forall>x\<in>set (keys a). \<forall>y\<in>set (keys b). x < y"
  shows "write_entries (a @ b) = write_entries a @ write_entries b"
proof -
  have s: "sort (keys (a @ b)) = sort (keys a) @ sort (keys b)"
    using assms by (simp add: keys_def sort_append_ordered less_imp_le)
  have la: "map_of (a @ b) d = map_of a d" if "d \<in> set (keys a)" for d
  proof -
    from that obtain v where "map_of a d = Some v"
      by (metis keys_def map_of_eq_None_iff not_Some_eq set_map)
    then show ?thesis by (simp add: map_add_Some_iff)
  qed
  have lb: "map_of (a @ b) d = map_of b d" if "d \<in> set (keys b)" for d
  proof -
    from that assms have "d \<notin> set (keys a)" by auto
    then have "map_of a d = None" by (simp add: keys_def map_of_eq_None_iff)
    then show ?thesis by (simp add: map_add_def)
  qed
  show ?thesis
    unfolding write_entries_def s map_append concat_append
    using la lb by (auto intro!: arg_cong [where f = concat] arg_cong2 [where f = append])
qed

subsection \<open>The update scan against the build scan\<close>

lemma update_scan_foldl:
  "update_scan dec f pos index new_entries
     = foldl (update_step dec index) new_entries (log_lines f pos)"
proof (induction dec f pos index new_entries rule: update_scan.induct)
  case (1 dec f offset index new_entries)
  show ?case
  proof (cases "readline f offset = []")
    case True
    then show ?thesis
      by (simp add: update_scan.simps [of dec f offset] log_lines.simps [of f offset])
  next
    case False
    then show ?thesis
      using "1.IH"
      by (simp add: update_scan.simps [of dec f offset index new_entries]
                    log_lines.simps [of f offset] update_step_def)
  qed
qed

lemma build_step_append:
  assumes "\<And>d. map_of loaded d = None \<longleftrightarrow> map_of old d = None"
  shows "build_step dec (old @ new_entries) ol = old @ update_step dec loaded new_entries ol"
proof -
  let ?k = "take 10 (dec (snd ol))"
  have n: "map_of (old @ new_entries) ?k = None
           \<longleftrightarrow> map_of loaded ?k = None \<and> map_of new_entries ?k = None"
    using assms by (auto simp: map_add_def split: option.splits)
  show ?thesis
  proof (cases "map_of (old @ new_entries) ?k = None")
    case True
    then have "map_of new_entries ?k = None" using n by simp
    then have "dict_set ?k (int (fst ol)) (old @ new_entries)
               = old @ dict_set ?k (int (fst ol)) new_entries"
      using True by (simp add: dict_set_new)
    then show ?thesis using True n by (simp add: build_step_def update_step_def)
  next
    case False
    then show ?thesis using n by (auto simp: build_step_def update_step_def)
  qed
qed

lemma foldl_build_step_append:
  assumes "\<And>d. map_of loaded d = None \<longleftrightarrow> map_of old d = None"
  shows "foldl (build_step dec) (old @ new_entries) ls
           = old @ foldl (update_step dec loaded) new_entries ls"
proof (induction ls arbitrary: new_entries)
  case Nil
  then show ?case by simp
next
  case (Cons ol ls)
  then show ?case by (simp add: build_step_append [OF assms])
qed

subsection \<open>Keys found by the scans\<close>

lemma date_keys_keys_of: "date_keys dec f pos = keys_of dec (log_lines f pos)"
  by (simp add: date_keys_def keys_of_def)

lemma keys_dict_set: "set (keys (dict_set k v d)) = insert k (set (keys d))"
  by (simp add: keys_def dom_map_of_conv_image_fst [symmetric] map_of_dict_set)

lemma keys_foldl_build_step:
  "set (keys (foldl (build_step dec) index ls)) = set (keys index) \<union> set (keys_of dec ls)"
proof (induction ls arbitrary: index)
  case Nil
  then show ?case by (simp add: keys_of_def)
next
  case (Cons ol ls)
  obtain q l where ol: "ol = (q, l)" by (cases ol)
  have "set (keys (build_step dec index ol)) \<union> set (keys_of dec ls)
        = set (keys index) \<union> set (keys_of dec (ol # ls))"
  proof (cases "length (dec l) < 10")
    case True
    then show ?thesis by (simp add: build_step_def keys_of_def ol)
  next
    case False
    show ?thesis
    proof (cases "map_of index (take 10 (dec l)) = None")
      case True
      then show ?thesis
        using False by (auto simp: build_step_def keys_of_def ol keys_dict_set)
    next
      case nn: False
      then have "take 10 (dec l) \<in> set (keys index)"
        by (simp add: keys_def map_of_eq_None_iff)
      then show ?thesis
        using False nn by (auto simp: build_step_def keys_of_def ol)
    qed
  qed
  then show ?case by (simp add: Cons.IH)
qed

lemma keys_of_length: "d \<in> set (keys_of dec ls) \<Longrightarrow> length d = 10"
  by (auto simp: keys_of_def)

subsection \<open>Scanning a file that has grown\<close>

lemma readline_grown:
  assumes "last old = LF" and "pos < length old"
  shows "readline (old @ appended) pos = readline old pos"
proof -
  have "drop pos old \<noteq> []" using assms(2) by simp
  then have "last (drop pos old) = LF" using assms by simp
  then have "LF \<in> set (drop pos old)"
    using \<open>drop pos old \<noteq> []\<close> last_in_set by metis
  then show ?thesis
    using assms(2) by (simp add: readline_def readline_from_append)
qed

lemma log_lines_grown:
  "old = [] \<or> last old = LF \<Longrightarrow> pos \<le> length old \<Longrightarrow>
   log_lines (old @ appended) pos
     = log_lines old pos @ log_lines (old @ appended) (length old)"
proof (induction old pos rule: log_lines.induct)
  case (1 f pos)
  show ?case
  proof (cases "readline f pos = []")
    case True
    then have "pos = length f" using "1.prems" by (simp add: readline_Nil_iff)
    then show ?thesis using True by (simp add: log_lines.simps [of f "length f"])
  next
    case False
    then have p: "pos < length f" by (simp add: readline_Nil_iff)
    then have l: "last f = LF" using "1.prems" by auto
    have r: "readline (f @ appended) pos = readline f pos"
      using readline_grown [OF l p] .
    have n: "pos + length (readline f pos) \<le> length f"
      using readline_length_le [of pos f] p by simp
    have "log_lines (f @ appended) pos
          = (pos, readline f pos) # log_lines (f @ appended) (pos + length (readline f pos))"
      using False r by (simp add: log_lines.simps [of "f @ appended" pos])
    also have "log_lines (f @ appended) (pos + length (readline f pos))
               = log_lines f (pos + length (readline f pos))
                 @ log_lines (f @ appended) (length f)"
      using "1.IH" [OF False] n "1.prems" by simp
    finally show ?thesis
      using False by (simp add: log_lines.simps [of f pos])
  qed
qed

lemma distinct_keys_build_step:
  "distinct (keys index) \<Longrightarrow> distinct (keys (build_step dec index ol))"
proof -
  assume d: "distinct (keys index)"
  have "distinct (keys (dict_set k v index))" if "map_of index k = None" for k v
  proof -
    from that have "k \<notin> set (keys index)" by (simp add: keys_def map_of_eq_None_iff)
    then show ?thesis using d that by (simp add: dict_set_new keys_def)
  qed
  then show ?thesis using d by (simp add: build_step_def)
qed

lemma distinct_keys_foldl_build_step:
  "distinct (keys index) \<Longrightarrow> distinct (keys (foldl (build_step dec) index ls))"
  by (induction ls arbitrary: index) (simp_all add: distinct_keys_build_step)

lemma keys_Nil: "keys [] = []"
  by (simp add: keys_def)

lemma keys_append: "keys (a @ b) = keys a @ keys b"
  by (simp add: keys_def)

lemma keys_of_append: "keys_of dec (xs @ ys) = keys_of dec xs @ keys_of dec ys"
  by (simp add: keys_of_def)

lemma map_of_merge_entries:
  "map_of (merge_entries new_entries ds index) k
     = (if k \<in> set ds
        then (case map_of new_entries k of None \<Rightarrow> map_of index k | Some v \<Rightarrow> Some v)
        else map_of index k)"
  by (induction ds arbitrary: index) (auto simp: map_of_dict_set split: option.splits)

lemma map_of_merge_sorted_keys:
  assumes "\<forall>x\<in>set (keys old). x \<notin> set (keys new_entries)"
    and "map_of loaded = map_of old"
  shows "map_of (merge_entries new_entries (sort (keys new_entries)) loaded)
           = map_of (old @ new_entries)"
proof
  fix k
  show "map_of (merge_entries new_entries (sort (keys new_entries)) loaded) k
          = map_of (old @ new_entries) k"
  proof (cases "map_of new_entries k")
    case None
    then show ?thesis
      using assms(2) by (simp add: map_of_merge_entries map_add_def split: option.splits)
  next
    case (Some v)
    then have "k \<in> set (keys new_entries)"
      by (metis keys_def map_of_eq_None_iff option.distinct(1) set_map)
    moreover from this have "k \<notin> set (keys old)"
      using assms(1) by blast
    then have "map_of old k = None"
      by (simp add: keys_def map_of_eq_None_iff)
    ultimately show ?thesis
      using Some by (simp add: map_of_merge_entries map_add_def)
  qed
qed

text \<open>Whatever the log file and the store, \<^verbatim>\<open>update_index\<close> leaves the text of an existing
  entry list in place and at most appends to it.\<close>

lemma update_index_only_appends:
  assumes "update_index dec log_file st = Inr (msg, index, st')"
    and "index_file st = Some old_entries"
  shows "\<exists>suffix. index_file st' = Some (old_entries @ suffix)"
proof (cases "load_index (index_file st)")
  case (Inl e)
  then show ?thesis using assms by (simp add: update_index_def)
next
  case (Inr loaded)
  then show ?thesis
    using assms unfolding update_index_def Let_def
    by (auto simp: append_file_def split: if_splits)
qed

text \<open>
  The equality of an update after a build with a full build is a property of files made of
  records: newline-terminated lines whose date key is a date. Two runs outside that format
  show what it rests on. When the initial file ends in the middle of a line, the update scan
  starts inside that line and takes the rest of it for a line of its own: here it adds the
  key \<^verbatim>\<open>cdefghijkl\<close> at offset 25, which a full build does not have. When a key already in
  the entry list contains a blank, its entry line has more than two fields and
  \<^verbatim>\<open>load_index\<close> skips it, so the update takes the key for a new one and appends a second
  entry for it.
\<close>

lemma update_outside_record_format:
  "sorted (date_keys decode_ascii (partial_line_log @ line_completion) 0)
   \<and> artifacts (update_index decode_ascii (partial_line_log @ line_completion)
                   (build_index decode_ascii partial_line_log empty_store))
       = Inr (Some ''2024-01-01 0\<newline>cdefghijkl 25\<newline>'', Some ''40'')
   \<and> index_file (build_index decode_ascii (partial_line_log @ line_completion) empty_store)
       = Some ''2024-01-01 0\<newline>''
   \<and> sorted (date_keys decode_ascii (blank_date_log @ blank_date_record) 0)
   \<and> artifacts (update_index decode_ascii (blank_date_log @ blank_date_record)
                   (build_index decode_ascii blank_date_log empty_store))
       = Inr (Some ''Jan 01 202 0\<newline>Jan 01 202 14\<newline>'', Some ''28'')
   \<and> index_file (build_index decode_ascii (blank_date_log @ blank_date_record) empty_store)
       = Some ''Jan 01 202 0\<newline>''"
  by code_simp

text \<open>
  Claim C7. Let \<open>old\<close> be a log file of records, that is, empty or ending with a newline, and
  let the date keys it holds be free of whitespace, as dates are; let \<open>appended\<close> be the bytes
  added to it, the date keys of the grown file being in non-decreasing order. Then
  \<^verbatim>\<open>update_index\<close> on the grown file, run on the store that \<^verbatim>\<open>build_index\<close> left for \<open>old\<close>,
  returns normally and leaves exactly the store that \<^verbatim>\<open>build_index\<close> leaves for the grown
  file: the same entry list and the same watermark; its in-memory index has the entries of a
  full build. The entry list of the grown file is the old entry list followed by new lines:
  no existing entry is changed. Nothing is asked of the appended bytes but the order of
  their keys: they may end inside a line, hold lines too short for a key, and keys of any
  form.
\<close>

theorem update_after_build_equals_full_build:
  assumes nl: "old = [] \<or> last old = LF"
    and srt: "sorted (date_keys dec (old @ appended) 0)"
    and cln: "\<forall>d\<in>set (date_keys dec old 0). \<forall>c\<in>set d. \<not> isspace c"
  shows "(\<exists>msg index. update_index dec (old @ appended) (build_index dec old st)
                        = Inr (msg, index, build_index dec (old @ appended) st)
                      \<and> map_of index = map_of (build_scan dec (old @ appended) 0 []))
         \<and> (\<exists>suffix. write_entries (build_scan dec (old @ appended) 0 [])
                       = write_entries (build_scan dec old 0 []) @ suffix)"
proof -
  let ?F = "old @ appended"
  let ?w = "length old"
  let ?idx0 = "build_scan dec old 0 []"
  let ?idxF = "build_scan dec ?F 0 []"
  let ?st0 = "build_index dec old st"
  have grown: "log_lines ?F 0 = log_lines old 0 @ log_lines ?F ?w"
    using log_lines_grown [OF nl, of 0 appended] by simp
  have dk: "date_keys dec ?F 0 = keys_of dec (log_lines old 0) @ keys_of dec (log_lines ?F ?w)"
    by (simp add: date_keys_keys_of grown keys_of_append)
  have k0: "set (keys ?idx0) = set (keys_of dec (log_lines old 0))"
    by (simp add: build_scan_foldl keys_foldl_build_step keys_Nil)
  have clean0: "\<forall>d\<in>set (keys ?idx0). clean_key d"
  proof
    fix d assume d: "d \<in> set (keys ?idx0)"
    then have "length d = 10" using k0 keys_of_length by blast
    moreover have "\<forall>c\<in>set d. \<not> isspace c"
      using d k0 cln by (simp add: date_keys_keys_of)
    ultimately show "clean_key d" by (auto simp: clean_key_def)
  qed
  obtain loaded where ld: "load_index (Some (write_entries ?idx0)) = Inr loaded"
    and lm: "map_of loaded = map_of ?idx0"
    using load_written_index [OF clean0] by blast
  let ?ne = "foldl (update_step dec loaded) [] (log_lines ?F ?w)"
  have same: "\<And>d. map_of loaded d = None \<longleftrightarrow> map_of ?idx0 d = None"
    by (simp add: lm)
  have idxF: "?idxF = ?idx0 @ ?ne"
  proof -
    have "?idxF = foldl (build_step dec) (?idx0 @ []) (log_lines ?F ?w)"
      by (simp add: build_scan_foldl grown)
    then show ?thesis
      by (simp only: foldl_build_step_append [OF same])
  qed
  have order: "\<forall>x\<in>set (keys ?idx0). \<forall>y\<in>set (keys ?ne). x < y"
  proof (intro ballI)
    fix x y assume x: "x \<in> set (keys ?idx0)" and y: "y \<in> set (keys ?ne)"
    have "distinct (keys ?idxF)"
      by (simp add: build_scan_foldl distinct_keys_foldl_build_step keys_Nil)
    then have ny: "y \<notin> set (keys ?idx0)"
      using y by (auto simp: idxF keys_append)
    have "set (keys ?idxF) = set (keys ?idx0) \<union> set (keys_of dec (log_lines ?F ?w))"
      using keys_foldl_build_step [of dec ?idx0 "log_lines ?F ?w"]
      by (simp add: build_scan_foldl grown)
    then have "y \<in> set (keys_of dec (log_lines ?F ?w))"
      using y ny by (auto simp: idxF keys_append)
    moreover have "x \<in> set (keys_of dec (log_lines old 0))"
      using x k0 by simp
    ultimately have "x \<le> y"
      using srt by (simp add: dk sorted_append)
    moreover have "x \<noteq> y" using x ny by auto
    ultimately show "x < y" by simp
  qed
  have wr: "write_entries ?idxF = write_entries ?idx0 @ write_entries ?ne"
    by (simp only: idxF write_entries_append [OF order])
  have st0: "index_file ?st0 = Some (write_entries ?idx0)"
    "index_info_file ?st0 = Some (str_int (int ?w))"
    by (simp_all add: build_index_def)
  have wm: "read_last_processed_offset (index_info_file ?st0) = int ?w"
    by (simp add: st0 read_written_watermark)
  have upd: "\<exists>msg index. update_index dec ?F ?st0 = Inr (msg, index, build_index dec ?F st)
                            \<and> map_of index = map_of ?idxF"
  proof (cases "appended = []")
    case True
    then show ?thesis
      by (simp add: update_index_def st0 ld lm read_written_watermark)
  next
    case False
    then have gt: "\<not> int (length ?F) \<le> int ?w" by simp
    have sc: "update_scan dec ?F ?w loaded [] = ?ne"
      by (simp add: update_scan_foldl)
    show ?thesis
    proof (cases "?ne = []")
      case True
      then have "?idxF = ?idx0" using idxF by simp
      then have "build_index dec ?F st = ?st0\<lparr>index_info_file := Some (str_int (int (length ?F)))\<rparr>"
        by (simp add: build_index_def)
      then show ?thesis
        using gt True sc \<open>?idxF = ?idx0\<close>
        by (simp add: update_index_def Let_def st0 ld lm read_written_watermark del: length_append)
    next
      case ne: False
      have "build_index dec ?F st
            = ?st0\<lparr>index_file := append_file (index_file ?st0) (write_entries ?ne),
                   index_info_file := Some (str_int (int (length ?F)))\<rparr>"
        by (simp add: build_index_def append_file_def wr)
      moreover have "map_of (merge_entries ?ne (sort (keys ?ne)) loaded) = map_of ?idxF"
        using map_of_merge_sorted_keys [of ?idx0 ?ne loaded] order lm
        by (fastforce simp: idxF)
      ultimately show ?thesis
        using gt ne sc
        by (simp add: update_index_def Let_def st0 ld read_written_watermark del: length_append)
    qed
  qed
  show ?thesis using upd wr by blast
qed

theorem update_after_build_equals_full_build_witness:
  "(spec_log = [] \<or> last spec_log = LF)
   \<and> date_keys decode_ascii (spec_log @ appended_records) 0
       = [''2024-01-01'', ''2024-01-01'', ''2024-01-02'', ''2024-01-02'', ''2024-01-03'']
   \<and> sorted (date_keys decode_ascii (spec_log @ appended_records) 0)
   \<and> date_keys decode_ascii spec_log 0 = [''2024-01-01'', ''2024-01-01'', ''2024-01-02'']
   \<and> list_all (list_all (\<lambda>c. \<not> isspace c)) (date_keys decode_ascii spec_log 0)
   \<and> (\<exists>msg index.
         update_index decode_ascii (spec_log @ appended_records)
           (build_index decode_ascii spec_log empty_store)
         = Inr (msg, index, build_index decode_ascii (spec_log @ appended_records) empty_store)
         \<and> map_of index = map_of (build_scan decode_ascii (spec_log @ appended_records) 0 []))
   \<and> index_file (build_index decode_ascii spec_log empty_store)
       = Some ''2024-01-01 0\<newline>2024-01-02 26\<newline>''
   \<and> index_file (build_index decode_ascii (spec_log @ appended_records) empty_store)
       = Some ''2024-01-01 0\<newline>2024-01-02 26\<newline>2024-01-03 52\<newline>''
   \<and> index_info_file (build_index decode_ascii (spec_log @ appended_records) empty_store)
       = Some ''65''
   \<and> sorted (date_keys decode_ascii (spec_log @ other_format_record) 0)
   \<and> (\<exists>msg index.
         update_index decode_ascii (spec_log @ other_format_record)
           (build_index decode_ascii spec_log empty_store)
         = Inr (msg, index, build_index decode_ascii (spec_log @ other_format_record) empty_store)
         \<and> map_of index = map_of (build_scan decode_ascii (spec_log @ other_format_record) 0 []))
   \<and> index_file (build_index decode_ascii (spec_log @ other_format_record) empty_store)
       = Some ''2024-01-01 0\<newline>2024-01-02 26\<newline>Jan 02 202 39\<newline>''"
proof -
  have h1: "spec_log = [] \<or> last spec_log = LF" by code_simp
  have h2: "sorted (date_keys decode_ascii (spec_log @ appended_records) 0)" by code_simp
  have k: "date_keys decode_ascii (spec_log @ appended_records) 0
           = [''2024-01-01'', ''2024-01-01'', ''2024-01-02'', ''2024-01-02'', ''2024-01-03'']"
    by code_simp
  have k0: "date_keys decode_ascii spec_log 0 = [''2024-01-01'', ''2024-01-01'', ''2024-01-02'']"
    by code_simp
  have l: "list_all (list_all (\<lambda>c. \<not> isspace c)) (date_keys decode_ascii spec_log 0)"
    by code_simp
  have h3: "\<forall>d\<in>set (date_keys decode_ascii spec_log 0). \<forall>c\<in>set d. \<not> isspace c"
    using l by (simp add: list_all_iff)
  have a: "index_file (build_index decode_ascii spec_log empty_store)
           = Some ''2024-01-01 0\<newline>2024-01-02 26\<newline>''" by code_simp
  have b: "index_file (build_index decode_ascii (spec_log @ appended_records) empty_store)
           = Some ''2024-01-01 0\<newline>2024-01-02 26\<newline>2024-01-03 52\<newline>''" by code_simp
  have c: "index_info_file (build_index decode_ascii (spec_log @ appended_records) empty_store)
           = Some ''65''" by code_simp
  have h2': "sorted (date_keys decode_ascii (spec_log @ other_format_record) 0)" by code_simp
  have b': "index_file (build_index decode_ascii (spec_log @ other_format_record) empty_store)
            = Some ''2024-01-01 0\<newline>2024-01-02 26\<newline>Jan 02 202 39\<newline>''" by code_simp
  show ?thesis
    using h1 h2 k k0 l a b c h2' b'
      update_after_build_equals_full_build [OF h1 h2 h3, of empty_store]
      update_after_build_equals_full_build [OF h1 h2' h3, of empty_store]
    by blast
qed

section \<open>Properties of the extraction\<close>

text \<open>
  Claim C9. When the target date is not a key of the index that \<^verbatim>\<open>extract_logs\<close> loads after
  its build-or-update step, the call returns normally with the "not found" report, and no
  output file is written: the outputs are those of the store it started from.
\<close>

theorem extract_logs_not_found:
  assumes "ensure_index dec log_file st = Inr st1"
    and "load_index (index_file st1) = Inr index"
    and "map_of index target_date = None"
  shows "extract_logs dec log_file target_date st = (Inr TargetNotFound, st1)
         \<and> outputs st1 = outputs st"
proof -
  have u: "outputs st' = outputs st"
    if "update_index dec log_file st = Inr (msg, idx, st')" for msg idx st'
    using that unfolding update_index_def Let_def
    by (cases "load_index (index_file st)") (auto split: if_splits)
  have "outputs st1 = outputs st"
  proof (cases "index_file st = None")
    case True
    then show ?thesis
      using assms(1) by (auto simp: ensure_index_def build_index_def)
  next
    case False
    then obtain msg idx where "update_index dec log_file st = Inr (msg, idx, st1)"
      using assms(1) by (auto simp: ensure_index_def split: sum.splits)
    then show ?thesis by (rule u)
  qed
  then show ?thesis
    using assms by (simp add: extract_logs_def)
qed

theorem extract_logs_not_found_witness:
  "ensure_index decode_ascii spec_log empty_store
     = Inr (build_index decode_ascii spec_log empty_store)
   \<and> load_index (index_file (build_index decode_ascii spec_log empty_store))
       = Inr [(''2024-01-01'', 0), (''2024-01-02'', 26)]
   \<and> map_of [(''2024-01-01'', 0), (''2024-01-02'', 26 :: int)] ''2024-03-05'' = None
   \<and> extract_logs decode_ascii spec_log ''2024-03-05'' empty_store
       = (Inr TargetNotFound, build_index decode_ascii spec_log empty_store)
   \<and> outputs (build_index decode_ascii spec_log empty_store) (output_file ''2024-03-05'') = None"
proof -
  have e: "ensure_index decode_ascii spec_log empty_store
           = Inr (build_index decode_ascii spec_log empty_store)"
    by (simp add: ensure_index_def empty_store_def)
  have l: "load_index (index_file (build_index decode_ascii spec_log empty_store))
           = Inr [(''2024-01-01'', 0), (''2024-01-02'', 26)]"
    by code_simp
  have m: "map_of [(''2024-01-01'', 0), (''2024-01-02'', 26 :: int)] ''2024-03-05'' = None"
    by simp
  have o: "outputs empty_store (output_file ''2024-03-05'') = None"
    by (simp add: empty_store_def)
  show ?thesis
    using e l m o extract_logs_not_found [OF e l m] by simp
qed

text \<open>
  Claim C1, evaluated on the specification's scenario file with the date \<^verbatim>\<open>2024-01-01\<close>,
  whose range is \<open>[0, 26)\<close>. The required output is the two lines of that date; the four
  chunks return the second line three times, and the output file holds four lines.
\<close>

theorem extract_logs_duplicates_boundary_lines:
  "matching_lines decode_ascii spec_log 0 26 ''2024-01-01''
     = [''2024-01-01 a\<newline>'', ''2024-01-01 b\<newline>'']
   \<and> get_date_range ''2024-01-01'' [(''2024-01-01'', 0), (''2024-01-02'', 26)] spec_log = Some (0, 26)
   \<and> run_chunks decode_ascii num_workers spec_log 0 26 ''2024-01-01''
       = Inr [[''2024-01-01 a\<newline>'', ''2024-01-01 b\<newline>''],
              [''2024-01-01 b\<newline>''], [''2024-01-01 b\<newline>''], []]
   \<and> fst (extract_logs decode_ascii spec_log ''2024-01-01'' empty_store)
       = Inr (Saved (output_file ''2024-01-01''))
   \<and> outputs (snd (extract_logs decode_ascii spec_log ''2024-01-01'' empty_store))
              (output_file ''2024-01-01'')
       = Some ''2024-01-01 a\<newline>2024-01-01 b\<newline>2024-01-01 b\<newline>2024-01-01 b\<newline>''"
  by code_simp

text \<open>
  Claim C2, evaluated on a file whose target date \<^verbatim>\<open>2024-01-02\<close> starts at offset 13. Chunk 0
  is \<open>[13, 19)\<close>; its start is not 0, so it discards the line that begins at offset 13, the
  first line of the date, and returns only the line after it. No chunk returns the
  discarded line, and the output file lacks it.
\<close>

theorem first_chunk_discards_first_line:
  "get_date_range ''2024-01-02'' [(''2024-01-01'', 0), (''2024-01-02'', 13)] second_date_log
     = Some (13, 39)
   \<and> tasks num_workers 13 39 = [(13, 19), (19, 25), (25, 31), (31, 39)]
   \<and> readline second_date_log 13 = ''2024-01-02 b\<newline>''
   \<and> process_chunk decode_ascii second_date_log 13 19 ''2024-01-02'' = Inr [''2024-01-02 c\<newline>'']
   \<and> matching_lines decode_ascii second_date_log 13 39 ''2024-01-02''
       = [''2024-01-02 b\<newline>'', ''2024-01-02 c\<newline>'']
   \<and> outputs (snd (extract_logs decode_ascii second_date_log ''2024-01-02'' empty_store))
              (output_file ''2024-01-02'')
       = Some ''2024-01-02 c\<newline>2024-01-02 c\<newline>2024-01-02 c\<newline>''"
  by code_simp

end
